theory Spec2Isabelle
  imports
    Complex_Main
    "HOL-Library.Word"
    "HOL-Library.Char_ord"
    "HOL-Library.List_Lexorder"
    "HOL-Library.Sublist"
begin

section \<open>Data model\<close>

text \<open>
  The generated message types (package \<open>api\<close>) are not part of the sources; their fields
  are taken from the way \<open>services\<close> and \<open>stream\<close> use them.  Floating point values
  (\<open>float64\<close>) are idealised as real numbers.  The two time fields are only copied,
  compared with zero and converted, and are kept as mathematical integers.  The radius is
  added (line 91) in its own integer type, 64 bits wide and signed, where the sum wraps
  around.
\<close>

text \<open>Modelled from the spec: \<open>api.Point\<close>, latitude and longitude in degrees.\<close>

record Point =
  Lat :: real
  Lon :: real

text \<open>
  Modelled from the spec: \<open>api.Object\<close>.  \<open>Point\<close> is a pointer in the source
  (line 86 tests it against \<open>nil\<close>), hence an option here.
\<close>

record Object =
  Key :: string
  Point :: "Point option"
  Radius :: "64 word"
  ExpiresUnix :: int
  UpdatedUnix :: int

text \<open>Modelled from the spec: \<open>api.Event\<close>, as built in lines 92-97 of \<open>Set\<close>.\<close>

record Event =
  TriggerObject :: Object
  Object :: Object
  Distance :: real
  TimestampUnix :: int

datatype error =
    ErrEmptyKey
  | ErrReadOnlyTxn
  | ErrKeyNotFound
  | ErrConflict
  | ErrUnmarshal
  | ErrRegexp

section \<open>The stream hub (\<open>stream/stream.go\<close>)\<close>

text \<open>
  A channel is identified by the number it got when \<open>make\<close> created it; \<open>None\<close> is the
  \<open>nil\<close> channel.  \<open>closedChans\<close> collects the channels that \<open>close\<close> was called on.
\<close>

type_synonym chan = nat

record Hub =
  objectClients :: "string \<rightharpoonup> chan"
  eventClients :: "string \<rightharpoonup> chan"
  closedChans :: "chan set"
  made :: nat

definition NewHub :: Hub where
  "NewHub = \<lparr>objectClients = Map.empty, eventClients = Map.empty, closedChans = {}, made = 0\<rparr>"

text \<open>\<open>uuid\<close> stands for the string that \<open>uuid.NewV4\<close> produces for this call.\<close>

definition AddObjectStreamClient :: "string \<Rightarrow> Hub \<Rightarrow> string \<Rightarrow> Hub \<times> string" where
  "AddObjectStreamClient uuid h clientID =
     (let clientID = (if clientID = [] then uuid else clientID)
      in (h\<lparr>objectClients := (objectClients h)(clientID \<mapsto> made h), made := Suc (made h)\<rparr>,
          clientID))"

definition RemoveObjectStreamClient :: "Hub \<Rightarrow> string \<Rightarrow> Hub" where
  "RemoveObjectStreamClient h ident =
     (case objectClients h ident of
        Some c \<Rightarrow> h\<lparr>closedChans := insert c (closedChans h),
                     objectClients := (objectClients h)(ident := None)\<rparr>
      | None \<Rightarrow> h)"

definition GetClientObjectStream :: "Hub \<Rightarrow> string \<Rightarrow> chan option" where
  "GetClientObjectStream h ident =
     (case objectClients h ident of Some c \<Rightarrow> objectClients h ident | None \<Rightarrow> None)"

definition AddEventStreamClient :: "string \<Rightarrow> Hub \<Rightarrow> string \<Rightarrow> Hub \<times> string" where
  "AddEventStreamClient uuid h clientID =
     (let clientID = (if clientID = [] then uuid else clientID)
      in (h\<lparr>eventClients := (eventClients h)(clientID \<mapsto> made h), made := Suc (made h)\<rparr>,
          clientID))"

definition RemoveEventStreamClient :: "Hub \<Rightarrow> string \<Rightarrow> Hub" where
  "RemoveEventStreamClient h ident =
     (case eventClients h ident of
        Some c \<Rightarrow> h\<lparr>closedChans := insert c (closedChans h),
                     eventClients := (eventClients h)(ident := None)\<rparr>
      | None \<Rightarrow> h)"

text \<open>
  Line 125 tests membership in \<open>objectClients\<close>, line 126 reads \<open>eventClients\<close>; reading a
  missing key of a Go map gives the zero value, the \<open>nil\<close> channel.
\<close>

definition GetClientEventStream :: "Hub \<Rightarrow> string \<Rightarrow> chan option" where
  "GetClientEventStream h ident =
     (case objectClients h ident of Some c \<Rightarrow> eventClients h ident | None \<Rightarrow> None)"

text \<open>
  One turn of the dispatch loops \<open>StartObjectStream\<close> and \<open>StartEventStream\<close>: the channels
  the item taken from the ingress channel is sent to.
\<close>

definition object_dispatch :: "Hub \<Rightarrow> chan set" where
  "object_dispatch h = ran (objectClients h)"

definition event_dispatch :: "Hub \<Rightarrow> chan set" where
  "event_dispatch h = ran (eventClients h)"

section \<open>The key-value engine\<close>

text \<open>
  The engine (badger) is an external collaborator.  It is modelled at its interface: a
  store is the list of its entries in ascending key order (byte-wise, a proper prefix
  first); a transaction reads a snapshot of the store through its own pending writes; an
  entry whose expiry time has passed is invisible to \<open>Get\<close> and to iterators; an empty key
  is refused.  Size limits and the engine's internal keys are left out, and so is a failing
  read of the value log: \<open>ValueCopy\<close> always succeeds.  Whether a commit meets a conflict
  is decided by the environment and is an argument of \<open>Commit\<close>.
\<close>

text \<open>
  \<open>proto.Marshal\<close> and \<open>proto.Unmarshal\<close> as a codec: the bytes written for an object
  decode to that object, every other byte string in the model does not decode.  The source
  discards the error result of \<open>proto.Marshal\<close> (line 57).
\<close>

datatype bytes = Marshal Object | Garbled nat

fun Unmarshal :: "bytes \<Rightarrow> Object option" where
  "Unmarshal (Marshal v) = Some v"
| "Unmarshal (Garbled n) = None"

record Entry =
  Value :: bytes
  UserMeta :: "8 word"
  ExpiresAt :: "64 word"

definition ObjectMeta :: "8 word" where
  "ObjectMeta = 1"

definition EventMeta :: "8 word" where
  "EventMeta = 2"

type_synonym DB = "(string \<times> Entry) list"

fun db_put :: "string \<Rightarrow> Entry \<Rightarrow> DB \<Rightarrow> DB" where
  "db_put k e [] = [(k, e)]"
| "db_put k e ((k', e') # rest) =
     (if k = k' then (k, e) # rest
      else if k < k' then (k, e) # (k', e') # rest
      else (k', e') # db_put k e rest)"

fun db_del :: "string \<Rightarrow> DB \<Rightarrow> DB" where
  "db_del k [] = []"
| "db_del k ((k', e') # rest) = (if k = k' then db_del k rest else (k', e') # db_del k rest)"

datatype pending = Put Entry | Tombstone

fun apply_write :: "DB \<Rightarrow> string \<times> pending \<Rightarrow> DB" where
  "apply_write db (k, Put e) = db_put k e db"
| "apply_write db (k, Tombstone) = db_del k db"

record Txn =
  update :: bool
  snapshot :: DB
  pendingWrites :: "(string \<times> pending) list"

definition NewTransaction :: "bool \<Rightarrow> DB \<Rightarrow> Txn" where
  "NewTransaction upd db = \<lparr>update = upd, snapshot = db, pendingWrites = []\<rparr>"

definition modify :: "Txn \<Rightarrow> string \<Rightarrow> pending \<Rightarrow> error + Txn" where
  "modify txn k w =
     (if \<not> update txn then Inl ErrReadOnlyTxn
      else if k = [] then Inl ErrEmptyKey
      else Inr (txn\<lparr>pendingWrites := pendingWrites txn @ [(k, w)]\<rparr>))"

definition SetEntry :: "Txn \<Rightarrow> string \<Rightarrow> Entry \<Rightarrow> error + Txn" where
  "SetEntry txn k e = modify txn k (Put e)"

definition txn_Delete :: "Txn \<Rightarrow> string \<Rightarrow> error + Txn" where
  "txn_Delete txn k = modify txn k Tombstone"

definition txn_view :: "Txn \<Rightarrow> DB" where
  "txn_view txn = foldl apply_write (snapshot txn) (pendingWrites txn)"

text \<open>\<open>now\<close> is the reading of the clock, \<open>time.Now().Unix()\<close>.\<close>

definition expired :: "int \<Rightarrow> Entry \<Rightarrow> bool" where
  "expired now e \<longleftrightarrow> ExpiresAt e \<noteq> 0 \<and> ExpiresAt e \<le> word_of_int now"

definition txn_Get :: "int \<Rightarrow> Txn \<Rightarrow> string \<Rightarrow> error + Entry" where
  "txn_Get now txn k =
     (if k = [] then Inl ErrEmptyKey
      else case map_of (txn_view txn) k of
             None \<Rightarrow> Inl ErrKeyNotFound
           | Some e \<Rightarrow> if expired now e then Inl ErrKeyNotFound else Inr e)"

text \<open>The items an iterator with the default options yields, from \<open>Rewind\<close> on.\<close>

definition Iterate :: "int \<Rightarrow> Txn \<Rightarrow> (string \<times> Entry) list" where
  "Iterate now txn = filter (\<lambda>(k, e). \<not> expired now e) (txn_view txn)"

text \<open>\<open>Seek\<close> moves to the first key that is not smaller than the one given.\<close>

definition Iterate_from :: "int \<Rightarrow> Txn \<Rightarrow> string \<Rightarrow> (string \<times> Entry) list" where
  "Iterate_from now txn k = dropWhile (\<lambda>(k', e). k' < k) (Iterate now txn)"

definition ValueCopy :: "Entry \<Rightarrow> error + bytes" where
  "ValueCopy item = Inr (Value item)"

definition Commit :: "bool \<Rightarrow> Txn \<Rightarrow> DB \<Rightarrow> error + DB" where
  "Commit conflict txn db =
     (if conflict then Inl ErrConflict else Inr (foldl apply_write db (pendingWrites txn)))"

definition Discard :: "Txn \<Rightarrow> DB \<Rightarrow> DB" where
  "Discard txn db = db"

text \<open>
  \<open>regexp.MatchString\<close> compiles the pattern and matches; \<open>rx\<close> stands for the compiler
  of package \<open>regexp\<close>, \<open>None\<close> for a pattern it rejects.
\<close>

type_synonym regexp = "string \<Rightarrow> (string \<Rightarrow> bool) option"

definition MatchString :: "regexp \<Rightarrow> string \<Rightarrow> string \<Rightarrow> error + bool" where
  "MatchString rx pattern s =
     (case rx pattern of None \<Rightarrow> Inl ErrRegexp | Some re \<Rightarrow> Inr (re s))"

text \<open>
  Package \<open>geo\<close>: a point is the pair (longitude, latitude); \<open>gd\<close> stands for
  \<open>GeoDistanceFrom\<close> with the haversine flag set.
\<close>

type_synonym geo_Point = "real \<times> real"

definition NewPointFromLatLng :: "real \<Rightarrow> real \<Rightarrow> geo_Point" where
  "NewPointFromLatLng lat lng = (lng, lat)"

type_synonym geo_dist = "geo_Point \<Rightarrow> geo_Point \<Rightarrow> real"

section \<open>The service (\<open>GeoDB\<close>)\<close>

subsection \<open>\<open>Set\<close>\<close>

text \<open>
  A goroutine of \<open>Set\<close> ends normally or with the nil dereference of line 69, which ends the
  process.
\<close>

datatype 'a outcome = Done 'a | Panic

text \<open>Lines 53-56.\<close>

definition stamp :: "int \<Rightarrow> string \<Rightarrow> Object \<Rightarrow> Object" where
  "stamp now key val =
     (let val = val\<lparr>Key := key\<rparr>
      in if UpdatedUnix val = 0 then val\<lparr>UpdatedUnix := now\<rparr> else val)"

text \<open>Lines 57-63.\<close>

definition new_entry :: "Object \<Rightarrow> Entry" where
  "new_entry val =
     \<lparr>Value = Marshal val, UserMeta = ObjectMeta, ExpiresAt = word_of_int (ExpiresUnix val)\<rparr>"

text \<open>
  The loop of lines 71-99 over the items of the iterator.  Line 91 adds the two radii as
  64-bit integers and converts the sum, read as a signed number, to \<open>float64\<close>.
\<close>

fun scan :: "geo_dist \<Rightarrow> Object \<Rightarrow> geo_Point \<Rightarrow> (string \<times> Entry) list \<Rightarrow> Event list" where
  "scan gd val point1 [] = []"
| "scan gd val point1 ((k, item) # rest) =
     (if UserMeta item \<noteq> ObjectMeta then scan gd val point1 rest
      else case ValueCopy item of
        Inl err \<Rightarrow> scan gd val point1 rest
      | Inr res \<Rightarrow>
         (case Unmarshal res of
            None \<Rightarrow> scan gd val point1 rest
          | Some obj \<Rightarrow>
             (case Point obj of
                None \<Rightarrow> scan gd val point1 rest
              | Some p \<Rightarrow>
                 (let point2 = NewPointFromLatLng (Lat p) (Lon p);
                      d = gd point1 point2
                  in if d \<le> real_of_int (sint (Radius val + Radius obj))
                     then \<lparr>TriggerObject = val, Object = obj, Distance = d,
                           TimestampUnix = UpdatedUnix val\<rparr> # scan gd val point1 rest
                     else scan gd val point1 rest))))"

text \<open>
  The goroutines of one request run concurrently, each in a transaction of its own.  A
  goroutine meets the shared store twice: when it opens its transaction (line 51), which
  fixes the snapshot it reads from then on, and when it commits (line 101).  Its body is
  split at the commit accordingly.
\<close>

text \<open>
  What a goroutine has done when it reaches its commit: its key, the stamped object it
  handed to \<open>PublishObject\<close>, its transaction with the write staged, and the events it
  handed to \<open>PublishEvent\<close>, in that order.
\<close>

record goroutine =
  gkey :: string
  gval :: Object
  gtxn :: Txn
  gevents :: "Event list"

text \<open>
  Lines 51-100, with the transaction opened on the store \<open>db\<close>.  \<open>Done None\<close> is the
  \<open>return\<close> of line 65, after which the deferred \<open>Discard\<close> drops the transaction.
\<close>

definition Set_scan ::
  "geo_dist \<Rightarrow> int \<Rightarrow> DB \<Rightarrow> string \<Rightarrow> Object \<Rightarrow> goroutine option outcome"
where
  "Set_scan gd now db key val0 =
     (let txn = NewTransaction True db;
          val = stamp now key val0
      in case SetEntry txn key (new_entry val) of
           Inl err \<Rightarrow> Done None
         | Inr txn \<Rightarrow>
            (case Point val of
               None \<Rightarrow> Panic
             | Some p \<Rightarrow>
                (let point1 = NewPointFromLatLng (Lat p) (Lon p);
                     events = scan gd val point1 (Iterate now txn)
                 in Done (Some \<lparr>gkey = key, gval = val, gtxn = txn, gevents = events\<rparr>))))"

text \<open>
  Lines 101-103, on the store as it is at that moment.  \<open>conflict\<close> tells for each key
  whether the commit of its goroutine fails; the error is logged and the deferred
  \<open>Discard\<close> drops the write.
\<close>

definition Set_commit :: "(string \<Rightarrow> bool) \<Rightarrow> DB \<Rightarrow> goroutine \<Rightarrow> DB" where
  "Set_commit conflict db g =
     (case Commit (conflict (gkey g)) (gtxn g) db of
        Inl err \<Rightarrow> Discard (gtxn g) db
      | Inr db' \<Rightarrow> db')"

text \<open>
  A request, whose map is given as the list of its entries in the order in which their
  goroutines open their transactions.  The schedule \<open>early\<close> names, for each key, the keys
  of the goroutines that commit before the goroutine of this key opens its transaction;
  \<open>waiting\<close> holds the goroutines that have reached their commit and not yet done it.
  Those still waiting when the last goroutine has started commit at the end, before
  \<open>wg.Wait\<close> returns.  The result is the store after the request and the goroutines that
  reached their commit, in the order of the list.  A panic in a goroutine ends the process.
\<close>

fun Set_workers ::
  "geo_dist \<Rightarrow> int \<Rightarrow> (string \<Rightarrow> bool) \<Rightarrow> (string \<Rightarrow> string list) \<Rightarrow> DB \<Rightarrow> goroutine list
     \<Rightarrow> (string \<times> Object) list \<Rightarrow> (DB \<times> goroutine list) outcome"
where
  "Set_workers gd now conflict early db waiting [] =
     Done (foldl (Set_commit conflict) db waiting, [])"
| "Set_workers gd now conflict early db waiting ((k, v) # rest) =
     (let db1 = foldl (Set_commit conflict) db
                  (filter (\<lambda>g. gkey g \<in> set (early k)) waiting);
          waiting1 = filter (\<lambda>g. gkey g \<notin> set (early k)) waiting
      in case Set_scan gd now db1 k v of
           Panic \<Rightarrow> Panic
         | Done None \<Rightarrow> Set_workers gd now conflict early db1 waiting1 rest
         | Done (Some g) \<Rightarrow>
            (case Set_workers gd now conflict early db1 (waiting1 @ [g]) rest of
               Panic \<Rightarrow> Panic
             | Done (db', gs) \<Rightarrow> Done (db', g # gs)))"

datatype SetResponse = SetResponse

record Set_result =
  response :: SetResponse
  failure :: "error option"
  store :: DB
  goroutines :: "goroutine list"

definition Set ::
  "geo_dist \<Rightarrow> int \<Rightarrow> (string \<Rightarrow> bool) \<Rightarrow> (string \<Rightarrow> string list) \<Rightarrow> DB
     \<Rightarrow> (string \<times> Object) list \<Rightarrow> Set_result outcome"
where
  "Set gd now conflict early db r =
     (case Set_workers gd now conflict early db [] r of
        Panic \<Rightarrow> Panic
      | Done (db', gs) \<Rightarrow>
          Done \<lparr>response = SetResponse, failure = None, store = db', goroutines = gs\<rparr>)"

text \<open>
  The objects and the events the request has published, goroutine by goroutine.  The
  order between the goroutines is not fixed by the code.
\<close>

definition objects_published :: "Set_result \<Rightarrow> Object list" where
  "objects_published res = map gval (goroutines res)"

definition events_published :: "Set_result \<Rightarrow> Event list" where
  "events_published res = concat (map gevents (goroutines res))"

subsection \<open>The reading calls\<close>

fun Keys_loop :: "(string \<times> Entry) list \<Rightarrow> string list \<Rightarrow> string list" where
  "Keys_loop [] keys = keys"
| "Keys_loop ((k, item) # rest) keys =
     (if UserMeta item \<noteq> ObjectMeta then Keys_loop rest keys
      else Keys_loop rest (keys @ [k]))"

definition Keys :: "int \<Rightarrow> DB \<Rightarrow> string list" where
  "Keys now db = Keys_loop (Iterate now (NewTransaction False db)) []"

fun GetRegex_loop ::
  "regexp \<Rightarrow> string \<Rightarrow> (string \<times> Entry) list \<Rightarrow> (string \<rightharpoonup> Object)
     \<Rightarrow> error + (string \<rightharpoonup> Object)"
where
  "GetRegex_loop rx regex [] objects = Inr objects"
| "GetRegex_loop rx regex ((k, item) # rest) objects =
     (if UserMeta item \<noteq> ObjectMeta then GetRegex_loop rx regex rest objects
      else case MatchString rx regex k of
        Inl err \<Rightarrow> Inl err
      | Inr match \<Rightarrow>
         (if match then
            (case ValueCopy item of
               Inl err \<Rightarrow> Inl err
             | Inr res \<Rightarrow>
                (case Unmarshal res of
                   None \<Rightarrow> Inl ErrUnmarshal
                 | Some obj \<Rightarrow> GetRegex_loop rx regex rest (objects(k \<mapsto> obj))))
          else GetRegex_loop rx regex rest objects))"

definition GetRegex :: "regexp \<Rightarrow> int \<Rightarrow> DB \<Rightarrow> string \<Rightarrow> error + (string \<rightharpoonup> Object)" where
  "GetRegex rx now db regex =
     GetRegex_loop rx regex (Iterate now (NewTransaction False db)) Map.empty"

fun Get_loop ::
  "int \<Rightarrow> Txn \<Rightarrow> string list \<Rightarrow> (string \<rightharpoonup> Object) \<Rightarrow> error + (string \<rightharpoonup> Object)"
where
  "Get_loop now txn [] objects = Inr objects"
| "Get_loop now txn (key # keys) objects =
     (case txn_Get now txn key of
        Inl err \<Rightarrow> Inl err
      | Inr i \<Rightarrow>
         (if UserMeta i \<noteq> ObjectMeta then Get_loop now txn keys objects
          else case ValueCopy i of
            Inl err \<Rightarrow> Inl err
          | Inr res \<Rightarrow>
             (case Unmarshal res of
                None \<Rightarrow> Inl ErrUnmarshal
              | Some obj \<Rightarrow> Get_loop now txn keys (objects(key \<mapsto> obj)))))"

definition Get :: "int \<Rightarrow> DB \<Rightarrow> string list \<Rightarrow> error + (string \<rightharpoonup> Object)" where
  "Get now db keys = Get_loop now (NewTransaction False db) keys Map.empty"

text \<open>
  The loop of lines 194-208: \<open>ValidForPrefix\<close> ends it at the first item whose key does not
  start with the prefix.
\<close>

fun Seek_loop ::
  "string \<Rightarrow> (string \<times> Entry) list \<Rightarrow> (string \<rightharpoonup> Object) \<Rightarrow> error + (string \<rightharpoonup> Object)"
where
  "Seek_loop pre [] objects = Inr objects"
| "Seek_loop pre ((k, item) # rest) objects =
     (if \<not> prefix pre k then Inr objects
      else if UserMeta item \<noteq> ObjectMeta then Seek_loop pre rest objects
      else case ValueCopy item of
        Inl err \<Rightarrow> Inl err
      | Inr res \<Rightarrow>
         (case Unmarshal res of
            None \<Rightarrow> Inl ErrUnmarshal
          | Some obj \<Rightarrow> Seek_loop pre rest (objects(k \<mapsto> obj))))"

definition Seek :: "int \<Rightarrow> DB \<Rightarrow> string \<Rightarrow> error + (string \<rightharpoonup> Object)" where
  "Seek now db pre = Seek_loop pre (Iterate_from now (NewTransaction False db) pre) Map.empty"

subsection \<open>\<open>Delete\<close>\<close>

datatype DeleteResponse = DeleteResponse

fun Delete_loop :: "Txn \<Rightarrow> string list \<Rightarrow> error + Txn" where
  "Delete_loop txn [] = Inr txn"
| "Delete_loop txn (key # keys) =
     (case txn_Delete txn key of
        Inl err \<Rightarrow> Inl err
      | Inr txn' \<Rightarrow> Delete_loop txn' keys)"

text \<open>
  Lines 214-223: the only statement that ends the transaction is the deferred
  \<open>Discard\<close>.  The result is the response and the store after the call.
\<close>

definition Delete :: "DB \<Rightarrow> string list \<Rightarrow> (error + DeleteResponse) \<times> DB" where
  "Delete db keys =
     (let txn = NewTransaction True db
      in case Delete_loop txn keys of
           Inl err \<Rightarrow> (Inl err, Discard txn db)
         | Inr txn' \<Rightarrow> (Inr DeleteResponse, Discard txn' db))"

subsection \<open>The streaming calls\<close>

text \<open>
  One turn of the \<open>for\<close> loop runs the \<open>select\<close> once.  The environment decides which case
  fires: a message arrives on the client's channel, or the context of the call is done.
  A \<open>nil\<close> channel never delivers, so an arrival offered while the hub has no channel for
  the client does not fire.  The loop is run on a finite script of such choices; its result
  is \<open>Returned\<close> when a \<open>return\<close> statement was reached and \<open>Looping\<close> when the script is
  used up with the loop still running.  The messages handed to \<open>ss.Send\<close> are collected in
  \<open>sent\<close>; an error of \<open>Send\<close> is logged and changes nothing.
\<close>

datatype 'm select_case = Recv 'm | CtxDone

datatype 's loop_result = Returned "error option" | Looping 's

record StreamRequest =
  ClientId :: string
  Regex :: string

record 'm stream_state =
  hub :: Hub
  sent :: "'m list"

fun Stream_loop ::
  "regexp \<Rightarrow> StreamRequest \<Rightarrow> string \<Rightarrow> Object select_case list \<Rightarrow> Object stream_state
     \<Rightarrow> Object stream_state loop_result"
where
  "Stream_loop rx r clientID [] s = Looping s"
| "Stream_loop rx r clientID (Recv msg # script) s =
     (case GetClientObjectStream (hub s) clientID of
        None \<Rightarrow> Stream_loop rx r clientID script s
      | Some c \<Rightarrow>
         (if Regex r \<noteq> [] then
            (case MatchString rx (Regex r) (Key msg) of
               Inl err \<Rightarrow> Returned (Some err)
             | Inr match \<Rightarrow>
                (if match then Stream_loop rx r clientID script (s\<lparr>sent := sent s @ [msg]\<rparr>)
                 else Stream_loop rx r clientID script s))
          else Stream_loop rx r clientID script (s\<lparr>sent := sent s @ [msg]\<rparr>)))"
| "Stream_loop rx r clientID (CtxDone # script) s =
     Stream_loop rx r clientID script (s\<lparr>hub := RemoveObjectStreamClient (hub s) clientID\<rparr>)"

definition Stream ::
  "regexp \<Rightarrow> string \<Rightarrow> StreamRequest \<Rightarrow> Object select_case list \<Rightarrow> Hub
     \<Rightarrow> Object stream_state loop_result"
where
  "Stream rx uuid r script h =
     (case AddObjectStreamClient uuid h (ClientId r) of
        (h', clientID) \<Rightarrow> Stream_loop rx r clientID script \<lparr>hub = h', sent = []\<rparr>)"

text \<open>
  \<open>StreamEvents\<close> (lines 256-285); its request has the same two fields.  Lines 257 and 281
  call \<open>AddObjectStreamClient\<close> and \<open>RemoveObjectStreamClient\<close>.
\<close>

fun StreamEvents_loop ::
  "regexp \<Rightarrow> StreamRequest \<Rightarrow> string \<Rightarrow> Event select_case list \<Rightarrow> Event stream_state
     \<Rightarrow> Event stream_state loop_result"
where
  "StreamEvents_loop rx r clientID [] s = Looping s"
| "StreamEvents_loop rx r clientID (Recv event # script) s =
     (case GetClientEventStream (hub s) clientID of
        None \<Rightarrow> StreamEvents_loop rx r clientID script s
      | Some c \<Rightarrow>
         (if Regex r \<noteq> [] then
            (case MatchString rx (Regex r) (Key (TriggerObject event)) of
               Inl err \<Rightarrow> Returned (Some err)
             | Inr match \<Rightarrow>
                (if match
                 then StreamEvents_loop rx r clientID script (s\<lparr>sent := sent s @ [event]\<rparr>)
                 else StreamEvents_loop rx r clientID script s))
          else StreamEvents_loop rx r clientID script (s\<lparr>sent := sent s @ [event]\<rparr>)))"
| "StreamEvents_loop rx r clientID (CtxDone # script) s =
     StreamEvents_loop rx r clientID script
       (s\<lparr>hub := RemoveObjectStreamClient (hub s) clientID\<rparr>)"

definition StreamEvents ::
  "regexp \<Rightarrow> string \<Rightarrow> StreamRequest \<Rightarrow> Event select_case list \<Rightarrow> Hub
     \<Rightarrow> Event stream_state loop_result"
where
  "StreamEvents rx uuid r script h =
     (case AddObjectStreamClient uuid h (ClientId r) of
        (h', clientID) \<Rightarrow> StreamEvents_loop rx r clientID script \<lparr>hub = h', sent = []\<rparr>)"

section \<open>What a collecting loop has gathered\<close>

text \<open>
  The loops of \<open>GetRegex\<close> and \<open>Seek\<close> add to a map the decoded object of every
  object-tagged item whose key is selected.  \<open>collected Q items acc result\<close> says that
  \<open>result\<close> is the outcome of such a loop over \<open>items\<close>, started with \<open>acc\<close> and
  selecting the keys that satisfy \<open>Q\<close>: either the map with exactly these keys added,
  every new value decoded from an item of that key, or the decoding error of a selected
  item.
\<close>

definition collected ::
  "(string \<Rightarrow> bool) \<Rightarrow> (string \<times> Entry) list \<Rightarrow> (string \<rightharpoonup> Object)
     \<Rightarrow> error + (string \<rightharpoonup> Object) \<Rightarrow> bool"
where
  "collected Q items acc result =
     (case result of
        Inr res \<Rightarrow>
          dom res = dom acc \<union> {k. \<exists>e. (k, e) \<in> set items \<and> UserMeta e = ObjectMeta \<and> Q k} \<and>
          (\<forall>k obj. res k = Some obj \<longrightarrow>
             acc k = Some obj \<or>
             (\<exists>e. (k, e) \<in> set items \<and> UserMeta e = ObjectMeta \<and> Q k \<and>
                  Unmarshal (Value e) = Some obj))
      | Inl err \<Rightarrow>
          err = ErrUnmarshal \<and>
          (\<exists>(k, e) \<in> set items. UserMeta e = ObjectMeta \<and> Q k \<and> Unmarshal (Value e) = None))"

section \<open>Values for the concrete instances\<close>

text \<open>A distance on the plane, with distance zero from a point to itself.\<close>

definition taxicab :: geo_dist where
  "taxicab p q = \<bar>fst p - fst q\<bar> + \<bar>snd p - snd q\<bar>"

definition object_a :: Object where
  "object_a =
     \<lparr>Key = ''a'', Point = Some \<lparr>Lat = 1, Lon = 2\<rparr>, Radius = 5, ExpiresUnix = 0,
      UpdatedUnix = 7\<rparr>"

definition object_b :: Object where
  "object_b =
     \<lparr>Key = ''b'', Point = Some \<lparr>Lat = 1, Lon = 4\<rparr>, Radius = 1, ExpiresUnix = 0,
      UpdatedUnix = 3\<rparr>"

definition object_c :: Object where
  "object_c =
     \<lparr>Key = ''c'', Point = Some \<lparr>Lat = 1, Lon = 5\<rparr>, Radius = 2, ExpiresUnix = 0,
      UpdatedUnix = 9\<rparr>"

text \<open>An object whose expiry time, one second after the epoch, has long passed.\<close>

definition object_old :: Object where
  "object_old =
     \<lparr>Key = ''a'', Point = Some \<lparr>Lat = 1, Lon = 2\<rparr>, Radius = 5, ExpiresUnix = 1,
      UpdatedUnix = 7\<rparr>"

text \<open>Two objects whose radii add up to \<open>2 ^ 63\<close>, two degrees of longitude apart.\<close>

definition object_wide :: Object where
  "object_wide =
     \<lparr>Key = ''a'', Point = Some \<lparr>Lat = 1, Lon = 2\<rparr>, Radius = 4611686018427387904,
      ExpiresUnix = 0, UpdatedUnix = 7\<rparr>"

definition object_far :: Object where
  "object_far =
     \<lparr>Key = ''b'', Point = Some \<lparr>Lat = 1, Lon = 4\<rparr>, Radius = 4611686018427387904,
      ExpiresUnix = 0, UpdatedUnix = 3\<rparr>"

text \<open>The transaction on the store \<open>db\<close> with the entry \<open>e\<close> staged under the key \<open>k\<close>.\<close>

definition staged :: "DB \<Rightarrow> string \<Rightarrow> Entry \<Rightarrow> Txn" where
  "staged db k e = \<lparr>update = True, snapshot = db, pendingWrites = [(k, Put e)]\<rparr>"

definition store_ab :: DB where
  "store_ab = [(''a'', new_entry object_a), (''b'', new_entry object_b)]"

text \<open>
  A compiler of patterns for the instances: it rejects the single opening parenthesis,
  as package \<open>regexp\<close> does, and takes any other pattern as a literal to be found in the
  string.
\<close>

definition literal_regexp :: regexp where
  "literal_regexp pattern = (if pattern = ''('' then None else Some (sublist pattern))"

section \<open>Properties of the hub and of the streaming calls\<close>

lemma RemoveObjectStreamClient_eventClients:
  "eventClients (RemoveObjectStreamClient h ident) = eventClients h"
  by (simp add: RemoveObjectStreamClient_def split: option.splits)

lemma RemoveObjectStreamClient_twice:
  "RemoveObjectStreamClient (RemoveObjectStreamClient h ident) ident =
   RemoveObjectStreamClient h ident"
  by (simp add: RemoveObjectStreamClient_def split: option.splits)

lemma GetClientEventStream_unregistered:
  "eventClients h ident = None \<Longrightarrow> GetClientEventStream h ident = None"
  by (simp add: GetClientEventStream_def split: option.splits)

text \<open>
  While the event map has no channel for the client, no arrival fires: whatever the
  script, nothing is sent and the loop is still running.
\<close>

lemma StreamEvents_loop_nil_channel:
  "eventClients (hub s) clientID = None \<Longrightarrow>
   \<exists>h'. StreamEvents_loop rx r clientID script s = Looping (s\<lparr>hub := h'\<rparr>)"
proof (induction script arbitrary: s)
  case Nil
  have "s = s\<lparr>hub := hub s\<rparr>" by simp
  then show ?case by (metis StreamEvents_loop.simps(1))
next
  case (Cons a script)
  show ?case
  proof (cases a)
    case (Recv event)
    with Cons show ?thesis
      by (simp add: GetClientEventStream_unregistered)
  next
    case CtxDone
    let ?s = "s\<lparr>hub := RemoveObjectStreamClient (hub s) clientID\<rparr>"
    have "eventClients (hub ?s) clientID = None"
      using Cons.prems by (simp add: RemoveObjectStreamClient_eventClients)
    from Cons.IH [OF this] CtxDone show ?thesis by auto
  qed
qed

lemma Stream_loop_cancelled:
  "Stream_loop rx r clientID (replicate (Suc n) CtxDone) s =
   Looping (s\<lparr>hub := RemoveObjectStreamClient (hub s) clientID\<rparr>)"
  by (induction n arbitrary: s) (simp_all add: RemoveObjectStreamClient_twice)

lemma StreamEvents_loop_cancelled:
  "StreamEvents_loop rx r clientID (replicate (Suc n) CtxDone) s =
   Looping (s\<lparr>hub := RemoveObjectStreamClient (hub s) clientID\<rparr>)"
  by (induction n arbitrary: s) (simp_all add: RemoveObjectStreamClient_twice)

lemma Stream_loop_no_normal_return:
  "Stream_loop rx r clientID script s \<noteq> Returned None"
proof (induction script arbitrary: s)
  case Nil
  show ?case by simp
next
  case (Cons a script)
  show ?case
    by (cases a) (simp_all add: Cons split: option.splits sum.splits)
qed

lemma StreamEvents_loop_no_normal_return:
  "StreamEvents_loop rx r clientID script s \<noteq> Returned None"
proof (induction script arbitrary: s)
  case Nil
  show ?case by simp
next
  case (Cons a script)
  show ?case
    by (cases a) (simp_all add: Cons split: option.splits sum.splits)
qed

text \<open>
  C1 (the code departs from it).  A client registered with \<open>AddEventStreamClient\<close> on a new
  hub has a delivery channel in the event map, and the dispatch loop sends to it, yet
  \<open>GetClientEventStream\<close> answers with the \<open>nil\<close> channel for its identifier.  A
  \<open>StreamEvents\<close> call on a new hub registers in the object map, so that whatever arrives
  and whenever it is cancelled, it has sent no event to its caller.
\<close>

theorem GetClientEventStream_misses_event_client:
  "(case AddEventStreamClient uuid NewHub ''c'' of
      (h, clientID) \<Rightarrow>
        eventClients h clientID = Some 0 \<and> event_dispatch h = {0} \<and>
        GetClientEventStream h clientID = None) \<and>
   (\<exists>h'. StreamEvents rx uuid \<lparr>ClientId = ''c'', Regex = regex\<rparr> script NewHub =
      Looping \<lparr>hub = h', sent = []\<rparr>)"
proof -
  have "\<exists>h'. StreamEvents_loop rx \<lparr>ClientId = ''c'', Regex = regex\<rparr> ''c'' script
          \<lparr>hub = NewHub\<lparr>objectClients := [''c'' \<mapsto> 0], made := Suc 0\<rparr>, sent = []\<rparr> =
        Looping (\<lparr>hub = NewHub\<lparr>objectClients := [''c'' \<mapsto> 0], made := Suc 0\<rparr>, sent = []\<rparr>
                   \<lparr>hub := h'\<rparr>)"
    by (rule StreamEvents_loop_nil_channel) (simp add: NewHub_def)
  then have "\<exists>h'. StreamEvents rx uuid \<lparr>ClientId = ''c'', Regex = regex\<rparr> script NewHub =
      Looping \<lparr>hub = h', sent = []\<rparr>"
    by (simp add: StreamEvents_def AddObjectStreamClient_def NewHub_def Let_def)
  moreover have "case AddEventStreamClient uuid NewHub ''c'' of
      (h, clientID) \<Rightarrow>
        eventClients h clientID = Some 0 \<and> event_dispatch h = {0} \<and>
        GetClientEventStream h clientID = None"
    by (simp add: AddEventStreamClient_def NewHub_def GetClientEventStream_def
        event_dispatch_def Let_def)
  ultimately show ?thesis by simp
qed

text \<open>
  C3 (the code departs from it).  Once the context is done the loop removes the client from
  the hub, and goes on: \<open>break\<close> leaves the \<open>select\<close>, not the \<open>for\<close>.  After any
  number of further turns both calls are still running, and no script at all makes either
  of them return without an error.
\<close>

theorem Stream_keeps_looping_after_cancellation:
  "(case AddObjectStreamClient uuid h (ClientId r) of
      (h', clientID) \<Rightarrow>
        Stream rx uuid r (replicate (Suc n) CtxDone) h =
          Looping \<lparr>hub = RemoveObjectStreamClient h' clientID, sent = []\<rparr> \<and>
        StreamEvents rx uuid r (replicate (Suc n) CtxDone) h =
          Looping \<lparr>hub = RemoveObjectStreamClient h' clientID, sent = []\<rparr>) \<and>
   Stream rx uuid r script h \<noteq> Returned None \<and>
   StreamEvents rx uuid r script' h \<noteq> Returned None"
  by (simp add: Stream_def StreamEvents_def Stream_loop_cancelled StreamEvents_loop_cancelled
      Stream_loop_no_normal_return StreamEvents_loop_no_normal_return
      del: replicate.simps split: prod.splits)

section \<open>Properties of the store\<close>

lemma Delete_store_unchanged: "snd (Delete db keys) = db"
  by (simp add: Delete_def Discard_def Let_def split: sum.splits)

text \<open>
  C2 (the code departs from it).  \<open>Delete\<close> stages its deletions and discards the
  transaction: the store after the call is the store before it, and a \<open>Get\<close> of a deleted
  key still returns the object.
\<close>

theorem Delete_leaves_object_in_store:
  "Delete [(''a'', new_entry object_a)] [''a''] =
     (Inr DeleteResponse, [(''a'', new_entry object_a)]) \<and>
   Get now (snd (Delete [(''a'', new_entry object_a)] [''a''])) [''a''] =
     Inr [''a'' \<mapsto> object_a]"
  by (simp add: Delete_def NewTransaction_def txn_Delete_def modify_def Discard_def
      Get_def txn_Get_def txn_view_def new_entry_def expired_def ObjectMeta_def ValueCopy_def
      object_a_def)

section \<open>Properties of \<open>Set\<close>\<close>

lemma stamp_simps [simp]:
  "Point (stamp now key val) = Point val"
  "Radius (stamp now key val) = Radius val"
  "ExpiresUnix (stamp now key val) = ExpiresUnix val"
  "Key (stamp now key val) = key"
  "UpdatedUnix (stamp now key val) = (if UpdatedUnix val = 0 then now else UpdatedUnix val)"
  by (simp_all add: stamp_def Let_def)

lemma stamp_eq:
  "stamp now key val =
     val\<lparr>Key := key, UpdatedUnix := (if UpdatedUnix val = 0 then now else UpdatedUnix val)\<rparr>"
  by (simp add: stamp_def Let_def)

lemma SetEntry_new:
  "SetEntry (NewTransaction True db) key e =
     (if key = [] then Inl ErrEmptyKey else Inr (staged db key e))"
  by (simp add: SetEntry_def modify_def NewTransaction_def staged_def)

lemma Iterate_staged:
  "Iterate now (staged db key e) = filter (\<lambda>(k, e). \<not> expired now e) (db_put key e db)"
  by (simp add: Iterate_def txn_view_def staged_def)

lemma db_put_mem: "(k, e) \<in> set (db_put k e db)"
  by (induction db) auto

lemma map_of_db_put: "map_of (db_put k e db) = (map_of db)(k \<mapsto> e)"
  by (induction db) (auto simp add: fun_eq_iff)

text \<open>What a goroutine does up to its commit, case by case.\<close>

lemma Set_scan_eq:
  "Set_scan gd now db key val =
     (if key = [] then Done None
      else case Point val of
        None \<Rightarrow> Panic
      | Some p \<Rightarrow>
          Done (Some \<lparr>gkey = key, gval = stamp now key val,
                      gtxn = staged db key (new_entry (stamp now key val)),
                      gevents = scan gd (stamp now key val) (NewPointFromLatLng (Lat p) (Lon p))
                        (Iterate now (staged db key (new_entry (stamp now key val))))\<rparr>))"
  by (simp add: Set_scan_def SetEntry_new Let_def split: option.splits)

lemma Set_commit_staged:
  "gtxn g = staged snap k e \<Longrightarrow>
   Set_commit conflict db g = (if conflict (gkey g) then db else db_put k e db)"
  by (simp add: Set_commit_def Commit_def Discard_def staged_def)

lemma Set_single:
  "Set gd now conflict early db [(k, v)] =
     (case Set_scan gd now db k v of
        Panic \<Rightarrow> Panic
      | Done None \<Rightarrow>
          Done \<lparr>response = SetResponse, failure = None, store = db, goroutines = []\<rparr>
      | Done (Some g) \<Rightarrow>
          Done \<lparr>response = SetResponse, failure = None, store = Set_commit conflict db g,
                goroutines = [g]\<rparr>)"
  by (simp add: Set_def split: outcome.splits option.splits)

lemma Set_workers_Panic_iff:
  "Set_workers gd now conflict early db waiting r = Panic \<longleftrightarrow>
     (\<exists>(k, v) \<in> set r. k \<noteq> [] \<and> Point v = None)"
proof (induction r arbitrary: db waiting)
  case Nil
  show ?case by simp
next
  case (Cons a r)
  obtain k v where a: "a = (k, v)" by (cases a)
  define db1 where "db1 = foldl (Set_commit conflict) db
      (filter (\<lambda>g. gkey g \<in> set (early k)) waiting)"
  define waiting1 where "waiting1 = filter (\<lambda>g. gkey g \<notin> set (early k)) waiting"
  show ?case
  proof (cases "Set_scan gd now db1 k v")
    case Panic
    then have "k \<noteq> [] \<and> Point v = None"
      by (auto simp add: Set_scan_eq split: if_splits option.splits)
    with Panic show ?thesis
      by (simp add: a db1_def)
  next
    case (Done x)
    then have ok: "\<not> (k \<noteq> [] \<and> Point v = None)"
      by (auto simp add: Set_scan_eq split: if_splits option.splits)
    show ?thesis
    proof (cases x)
      case None
      with Done have "Set_workers gd now conflict early db waiting (a # r) =
          Set_workers gd now conflict early db1 waiting1 r"
        by (simp add: a db1_def waiting1_def)
      with ok Cons.IH [of db1 waiting1] show ?thesis
        by (auto simp add: a)
    next
      case (Some g)
      with Done have "Set_workers gd now conflict early db waiting (a # r) = Panic \<longleftrightarrow>
          Set_workers gd now conflict early db1 (waiting1 @ [g]) r = Panic"
        by (simp add: a db1_def waiting1_def split: outcome.splits)
      with ok Cons.IH [of db1 "waiting1 @ [g]"] show ?thesis
        by (auto simp add: a)
    qed
  qed
qed

lemma Set_Panic_iff:
  "Set gd now conflict early db r = Panic \<longleftrightarrow> (\<exists>(k, v) \<in> set r. k \<noteq> [] \<and> Point v = None)"
proof -
  have "Set gd now conflict early db r = Panic \<longleftrightarrow>
      Set_workers gd now conflict early db [] r = Panic"
    by (cases "Set_workers gd now conflict early db [] r") (auto simp add: Set_def)
  then show ?thesis by (simp only: Set_workers_Panic_iff)
qed

lemma Set_Done_response:
  "Set gd now conflict early db r = Done res \<Longrightarrow> response res = SetResponse \<and> failure res = None"
  by (auto simp add: Set_def split: outcome.splits)

text \<open>
  Whatever the schedule, a request that does not panic has one goroutine at its commit for
  each entry whose key the store accepts, in the order of the list, and each of them has
  run lines 51-100 on some store as its snapshot.
\<close>

lemma Set_workers_goroutines:
  "Set_workers gd now conflict early db waiting r = Done (db', gs) \<Longrightarrow>
   list_all2 (\<lambda>(k, v) g. \<exists>snap. Set_scan gd now snap k v = Done (Some g))
     (filter (\<lambda>(k, v). k \<noteq> []) r) gs"
proof (induction r arbitrary: db waiting db' gs)
  case Nil
  then show ?case by simp
next
  case (Cons a r)
  obtain k v where a: "a = (k, v)" by (cases a)
  define db1 where "db1 = foldl (Set_commit conflict) db
      (filter (\<lambda>g. gkey g \<in> set (early k)) waiting)"
  define waiting1 where "waiting1 = filter (\<lambda>g. gkey g \<notin> set (early k)) waiting"
  show ?case
  proof (cases "Set_scan gd now db1 k v")
    case Panic
    with Cons.prems show ?thesis
      by (simp add: a db1_def)
  next
    case (Done x)
    show ?thesis
    proof (cases x)
      case None
      with Done have k: "k = []"
        by (auto simp add: Set_scan_eq split: if_splits option.splits)
      from None Done Cons.prems
      have "Set_workers gd now conflict early db1 waiting1 r = Done (db', gs)"
        by (simp add: a db1_def waiting1_def)
      from Cons.IH [OF this] k show ?thesis
        by (simp add: a)
    next
      case (Some g)
      with Done have k: "k \<noteq> []"
        by (auto simp add: Set_scan_eq split: if_splits option.splits)
      from Some Done Cons.prems obtain gs' where gs: "gs = g # gs'"
        and run: "Set_workers gd now conflict early db1 (waiting1 @ [g]) r = Done (db', gs')"
        by (auto simp add: a db1_def waiting1_def split: outcome.splits)
      from Done Some have "\<exists>snap. Set_scan gd now snap k v = Done (Some g)"
        by blast
      with Cons.IH [OF run] k show ?thesis
        by (simp add: a gs)
    qed
  qed
qed

lemma Set_goroutines:
  assumes "Set gd now conflict early db r = Done res"
  shows "list_all2 (\<lambda>(k, v) g. \<exists>snap. Set_scan gd now snap k v = Done (Some g))
     (filter (\<lambda>(k, v). k \<noteq> []) r) (goroutines res)"
proof -
  from assms obtain db' where "Set_workers gd now conflict early db [] r = Done (db', goroutines res)"
    by (auto simp add: Set_def split: outcome.splits)
  then show ?thesis by (rule Set_workers_goroutines)
qed

subsection \<open>The proximity scan\<close>

lemma sint_add_in_range:
  fixes a b :: "64 word"
  assumes "- (2 ^ 63) \<le> sint a + sint b" and "sint a + sint b < 2 ^ 63"
  shows "sint (a + b) = sint a + sint b"
  using assms by (simp add: sint_word_ariths signed_take_bit_int_eq_self)

lemma scan_Object_iff:
  "(\<exists>ev \<in> set (scan gd A p1 items). Object ev = B) \<longleftrightarrow>
     (\<exists>(k, item) \<in> set items. UserMeta item = ObjectMeta \<and> Unmarshal (Value item) = Some B) \<and>
     (\<exists>q. Point B = Some q \<and>
        gd p1 (NewPointFromLatLng (Lat q) (Lon q)) \<le> real_of_int (sint (Radius A + Radius B)))"
  by (induction items)
     (auto simp add: ValueCopy_def Let_def split: if_splits option.splits)

lemma scan_event_mem:
  "(k, item) \<in> set items \<Longrightarrow> UserMeta item = ObjectMeta \<Longrightarrow>
   Unmarshal (Value item) = Some B \<Longrightarrow> Point B = Some q \<Longrightarrow>
   gd p1 (NewPointFromLatLng (Lat q) (Lon q)) \<le> real_of_int (sint (Radius A + Radius B)) \<Longrightarrow>
   \<lparr>TriggerObject = A, Object = B, Distance = gd p1 (NewPointFromLatLng (Lat q) (Lon q)),
     TimestampUnix = UpdatedUnix A\<rparr> \<in> set (scan gd A p1 items)"
  by (induction items)
     (auto simp add: ValueCopy_def Let_def split: if_splits option.splits)

text \<open>
  The scan of one goroutine: for an object-tagged item \<open>B\<close> its iterator yields, the
  event for \<open>B\<close> is among its events exactly when \<open>B\<close> has a coordinate and the distance
  is at most the sum the code computes.
\<close>

lemma Set_scan_events:
  assumes run: "Set_scan gd now snap key val = Done (Some g)"
    and cand: "(k, item) \<in> set (Iterate now (gtxn g))" "UserMeta item = ObjectMeta"
      "Unmarshal (Value item) = Some B"
  shows "case Point (gval g) of
      None \<Rightarrow> False
    | Some p \<Rightarrow>
       (case Point B of
          None \<Rightarrow> \<not> (\<exists>ev \<in> set (gevents g). Object ev = B)
        | Some q \<Rightarrow>
           (\<lparr>TriggerObject = gval g, Object = B,
             Distance = gd (NewPointFromLatLng (Lat p) (Lon p))
                           (NewPointFromLatLng (Lat q) (Lon q)),
             TimestampUnix = UpdatedUnix (gval g)\<rparr> \<in> set (gevents g)) \<longleftrightarrow>
           gd (NewPointFromLatLng (Lat p) (Lon p)) (NewPointFromLatLng (Lat q) (Lon q))
             \<le> real_of_int (sint (Radius (gval g) + Radius B)))"
proof -
  from run obtain p where p: "Point val = Some p" and key: "key \<noteq> []"
    by (auto simp add: Set_scan_eq split: if_splits option.splits)
  let ?A = "stamp now key val"
  let ?P = "NewPointFromLatLng (Lat p) (Lon p)"
  let ?items = "Iterate now (staged snap key (new_entry ?A))"
  from run p key have g: "gval g = ?A" "gtxn g = staged snap key (new_entry ?A)"
    "gevents g = scan gd ?A ?P ?items"
    by (auto simp add: Set_scan_eq)
  from cand(1) have mem: "(k, item) \<in> set ?items"
    by (simp add: g)
  show ?thesis
  proof (cases "Point B")
    case None
    then have "\<not> (\<exists>ev \<in> set (scan gd ?A ?P ?items). Object ev = B)"
      by (simp add: scan_Object_iff)
    with None p show ?thesis by (simp add: g)
  next
    case (Some q)
    let ?d = "gd ?P (NewPointFromLatLng (Lat q) (Lon q))"
    let ?ev = "\<lparr>TriggerObject = ?A, Object = B, Distance = ?d, TimestampUnix = UpdatedUnix ?A\<rparr>"
    have "?ev \<in> set (scan gd ?A ?P ?items) \<longleftrightarrow>
        ?d \<le> real_of_int (sint (Radius ?A + Radius B))"
    proof
      assume "?ev \<in> set (scan gd ?A ?P ?items)"
      then have "\<exists>ev \<in> set (scan gd ?A ?P ?items). Object ev = B"
        by (rule bexI [rotated]) simp
      then show "?d \<le> real_of_int (sint (Radius ?A + Radius B))"
        using Some by (simp add: scan_Object_iff)
    next
      assume "?d \<le> real_of_int (sint (Radius ?A + Radius B))"
      with mem cand(2,3) Some show "?ev \<in> set (scan gd ?A ?P ?items)"
        by (rule scan_event_mem)
    qed
    with Some p show ?thesis by (simp add: g)
  qed
qed

lemma Set_scan_fields:
  "Set_scan gd now snap key val = Done (Some g) \<Longrightarrow>
   gkey g = key \<and> gval g = stamp now key val \<and>
   gtxn g = staged snap key (new_entry (stamp now key val))"
  by (auto simp add: Set_scan_eq split: if_splits option.splits)

lemma list_all2_map_eq:
  "list_all2 (\<lambda>x y. f y = h x) xs ys \<Longrightarrow> map f ys = map h xs"
  by (induction rule: list_all2_induct) auto

lemma list_all2_right:
  "list_all2 P xs ys \<Longrightarrow> y \<in> set ys \<Longrightarrow> \<exists>x \<in> set xs. P x y"
  by (induction rule: list_all2_induct) auto

lemma list_all2_left:
  "list_all2 P xs ys \<Longrightarrow> x \<in> set xs \<Longrightarrow> \<exists>y \<in> set ys. P x y"
  by (induction rule: list_all2_induct) auto

lemma events_published_goroutine:
  "g \<in> set (goroutines res) \<Longrightarrow> set (gevents g) \<subseteq> set (events_published res)"
  by (auto simp add: events_published_def)

lemma Set_returns:
  assumes "\<forall>(key, val) \<in> set r. Point val \<noteq> None"
  shows "\<exists>res. Set gd now conflict early db r = Done res"
proof -
  from assms have "Set gd now conflict early db r \<noteq> Panic"
    unfolding Set_Panic_iff by auto
  then show ?thesis by (cases "Set gd now conflict early db r") auto
qed

text \<open>
  C5, as the code has it.  Take a request whose objects all have a point, under any
  schedule of its goroutines.  \<open>Set\<close> returns; it has run one goroutine for each entry
  whose key the store accepts, with that key and the stamped object \<open>A\<close> staged in its
  transaction.  For every object-tagged item \<open>B\<close> that the iterator of that transaction
  yields: if \<open>B\<close> has a coordinate, the goroutine publishes the event with \<open>A\<close> as trigger,
  \<open>B\<close> as matched object, their distance and \<open>A\<close>'s time stamp if and only if the
  distance is at most the sum of the two radii as line 91 computes it, in 64-bit signed
  arithmetic; where the sum of the radii lies in the range of that type, this is the sum
  of the radii.  If \<open>B\<close> has no coordinate, it publishes no event for \<open>B\<close>.
\<close>

theorem Set_event_iff_within_radii:
  assumes "\<forall>(key, val) \<in> set r. Point val \<noteq> None"
  shows "\<exists>res. Set gd now conflict early db r = Done res \<and>
    map (\<lambda>g. (gkey g, gval g)) (goroutines res) =
      map (\<lambda>(key, val). (key, stamp now key val)) (filter (\<lambda>(key, val). key \<noteq> []) r) \<and>
    (\<forall>g \<in> set (goroutines res).
       pendingWrites (gtxn g) = [(gkey g, Put (new_entry (gval g)))] \<and>
       set (gevents g) \<subseteq> set (events_published res) \<and>
       (\<forall>(k, item) \<in> set (Iterate now (gtxn g)). \<forall>B.
          UserMeta item = ObjectMeta \<longrightarrow> Unmarshal (Value item) = Some B \<longrightarrow>
          (case Point (gval g) of
             None \<Rightarrow> False
           | Some p \<Rightarrow>
              (case Point B of
                 None \<Rightarrow> \<not> (\<exists>ev \<in> set (gevents g). Object ev = B)
               | Some q \<Rightarrow>
                  ((\<lparr>TriggerObject = gval g, Object = B,
                     Distance = gd (NewPointFromLatLng (Lat p) (Lon p))
                                   (NewPointFromLatLng (Lat q) (Lon q)),
                     TimestampUnix = UpdatedUnix (gval g)\<rparr> \<in> set (gevents g)) \<longleftrightarrow>
                   gd (NewPointFromLatLng (Lat p) (Lon p)) (NewPointFromLatLng (Lat q) (Lon q))
                     \<le> real_of_int (sint (Radius (gval g) + Radius B))) \<and>
                  (- (2 ^ 63) \<le> sint (Radius (gval g)) + sint (Radius B) \<and>
                   sint (Radius (gval g)) + sint (Radius B) < 2 ^ 63 \<longrightarrow>
                   ((\<lparr>TriggerObject = gval g, Object = B,
                      Distance = gd (NewPointFromLatLng (Lat p) (Lon p))
                                    (NewPointFromLatLng (Lat q) (Lon q)),
                      TimestampUnix = UpdatedUnix (gval g)\<rparr> \<in> set (gevents g)) \<longleftrightarrow>
                    gd (NewPointFromLatLng (Lat p) (Lon p)) (NewPointFromLatLng (Lat q) (Lon q))
                      \<le> real_of_int (sint (Radius (gval g)) + sint (Radius B))))))))"
proof -
  from assms obtain res where run: "Set gd now conflict early db r = Done res"
    using Set_returns by blast
  let ?accepted = "filter (\<lambda>(key, val). key \<noteq> []) r"
  have all2: "list_all2 (\<lambda>(k, v) g. \<exists>snap. Set_scan gd now snap k v = Done (Some g))
      ?accepted (goroutines res)"
    using run by (rule Set_goroutines)
  then have "list_all2 (\<lambda>x g. (gkey g, gval g) = (case x of (key, val) \<Rightarrow> (key, stamp now key val)))
      ?accepted (goroutines res)"
    by (rule list_all2_mono) (auto dest: Set_scan_fields)
  then have cover: "map (\<lambda>g. (gkey g, gval g)) (goroutines res) =
      map (\<lambda>(key, val). (key, stamp now key val)) ?accepted"
    by (rule list_all2_map_eq)
  have each: "pendingWrites (gtxn g) = [(gkey g, Put (new_entry (gval g)))] \<and>
       set (gevents g) \<subseteq> set (events_published res) \<and>
       (\<forall>(k, item) \<in> set (Iterate now (gtxn g)). \<forall>B.
          UserMeta item = ObjectMeta \<longrightarrow> Unmarshal (Value item) = Some B \<longrightarrow>
          (case Point (gval g) of
             None \<Rightarrow> False
           | Some p \<Rightarrow>
              (case Point B of
                 None \<Rightarrow> \<not> (\<exists>ev \<in> set (gevents g). Object ev = B)
               | Some q \<Rightarrow>
                  ((\<lparr>TriggerObject = gval g, Object = B,
                     Distance = gd (NewPointFromLatLng (Lat p) (Lon p))
                                   (NewPointFromLatLng (Lat q) (Lon q)),
                     TimestampUnix = UpdatedUnix (gval g)\<rparr> \<in> set (gevents g)) \<longleftrightarrow>
                   gd (NewPointFromLatLng (Lat p) (Lon p)) (NewPointFromLatLng (Lat q) (Lon q))
                     \<le> real_of_int (sint (Radius (gval g) + Radius B))) \<and>
                  (- (2 ^ 63) \<le> sint (Radius (gval g)) + sint (Radius B) \<and>
                   sint (Radius (gval g)) + sint (Radius B) < 2 ^ 63 \<longrightarrow>
                   ((\<lparr>TriggerObject = gval g, Object = B,
                      Distance = gd (NewPointFromLatLng (Lat p) (Lon p))
                                    (NewPointFromLatLng (Lat q) (Lon q)),
                      TimestampUnix = UpdatedUnix (gval g)\<rparr> \<in> set (gevents g)) \<longleftrightarrow>
                    gd (NewPointFromLatLng (Lat p) (Lon p)) (NewPointFromLatLng (Lat q) (Lon q))
                      \<le> real_of_int (sint (Radius (gval g)) + sint (Radius B)))))))"
    if g: "g \<in> set (goroutines res)" for g
  proof -
    from list_all2_right [OF all2 g] obtain key val snap
      where scan: "Set_scan gd now snap key val = Done (Some g)"
      by auto
    from Set_scan_fields [OF scan]
    have "pendingWrites (gtxn g) = [(gkey g, Put (new_entry (gval g)))]"
      by (simp add: staged_def)
    moreover from g have "set (gevents g) \<subseteq> set (events_published res)"
      by (rule events_published_goroutine)
    moreover have "case Point (gval g) of
             None \<Rightarrow> False
           | Some p \<Rightarrow>
              (case Point B of
                 None \<Rightarrow> \<not> (\<exists>ev \<in> set (gevents g). Object ev = B)
               | Some q \<Rightarrow>
                  ((\<lparr>TriggerObject = gval g, Object = B,
                     Distance = gd (NewPointFromLatLng (Lat p) (Lon p))
                                   (NewPointFromLatLng (Lat q) (Lon q)),
                     TimestampUnix = UpdatedUnix (gval g)\<rparr> \<in> set (gevents g)) \<longleftrightarrow>
                   gd (NewPointFromLatLng (Lat p) (Lon p)) (NewPointFromLatLng (Lat q) (Lon q))
                     \<le> real_of_int (sint (Radius (gval g) + Radius B))) \<and>
                  (- (2 ^ 63) \<le> sint (Radius (gval g)) + sint (Radius B) \<and>
                   sint (Radius (gval g)) + sint (Radius B) < 2 ^ 63 \<longrightarrow>
                   ((\<lparr>TriggerObject = gval g, Object = B,
                      Distance = gd (NewPointFromLatLng (Lat p) (Lon p))
                                    (NewPointFromLatLng (Lat q) (Lon q)),
                      TimestampUnix = UpdatedUnix (gval g)\<rparr> \<in> set (gevents g)) \<longleftrightarrow>
                    gd (NewPointFromLatLng (Lat p) (Lon p)) (NewPointFromLatLng (Lat q) (Lon q))
                      \<le> real_of_int (sint (Radius (gval g)) + sint (Radius B)))))"
      if "(k, item) \<in> set (Iterate now (gtxn g))" "UserMeta item = ObjectMeta"
        "Unmarshal (Value item) = Some B" for k item B
      using Set_scan_events [OF scan that]
      by (auto simp add: sint_add_in_range simp del: of_int_sint split: option.splits)
    ultimately show ?thesis by blast
  qed
  from run cover each show ?thesis by blast
qed

text \<open>
  An instance: \<open>object_a\<close> and \<open>object_c\<close> are written in one request, both goroutines
  reading the store that holds \<open>object_b\<close>.  \<open>object_b\<close> lies at distance 2 of \<open>object_a\<close>,
  within the radii 5 and 1, and at distance 1 of \<open>object_c\<close>, within the radii 2 and 1.
\<close>

theorem Set_event_iff_within_radii_witness:
  "Point object_a \<noteq> None \<and> Point object_c \<noteq> None \<and>
   (\<exists>res. Set taxicab 100 (\<lambda>k. False) (\<lambda>k. []) [(''b'', new_entry object_b)]
            [(''a'', object_a), (''c'', object_c)] = Done res \<and>
      map gkey (goroutines res) = [''a'', ''c''] \<and>
      \<lparr>TriggerObject = object_a, Object = object_b, Distance = 2, TimestampUnix = 7\<rparr>
        \<in> set (events_published res) \<and>
      \<lparr>TriggerObject = object_c, Object = object_b, Distance = 1, TimestampUnix = 9\<rparr>
        \<in> set (events_published res))"
proof -
  have points: "\<forall>(key, val) \<in> set [(''a'', object_a), (''c'', object_c)]. Point val \<noteq> None"
    by (simp add: object_a_def object_c_def)
  from Set_event_iff_within_radii [OF points, where gd = taxicab and now = 100
      and conflict = "\<lambda>k. False" and early = "\<lambda>k. []" and db = "[(''b'', new_entry object_b)]"]
  obtain res where run: "Set taxicab 100 (\<lambda>k. False) (\<lambda>k. []) [(''b'', new_entry object_b)]
            [(''a'', object_a), (''c'', object_c)] = Done res"
    and cover: "map (\<lambda>g. (gkey g, gval g)) (goroutines res) =
      map (\<lambda>(key, val). (key, stamp 100 key val))
        (filter (\<lambda>(key, val). key \<noteq> []) [(''a'', object_a), (''c'', object_c)])"
    by blast
  from cover have keys: "map gkey (goroutines res) = [''a'', ''c'']"
    by (auto simp add: map_eq_Cons_conv)
  from run have evs: "events_published res =
      scan taxicab object_a (NewPointFromLatLng 1 2)
        [(''a'', new_entry object_a), (''b'', new_entry object_b)] @
      scan taxicab object_c (NewPointFromLatLng 1 5)
        [(''b'', new_entry object_b), (''c'', new_entry object_c)]"
    by (auto simp add: Set_def Set_scan_eq Iterate_staged stamp_eq events_published_def
        object_a_def object_b_def object_c_def new_entry_def expired_def Let_def)
  have "\<lparr>TriggerObject = object_a, Object = object_b, Distance = 2, TimestampUnix = 7\<rparr>
      \<in> set (events_published res)"
    unfolding evs
    by (simp add: object_a_def object_b_def object_c_def new_entry_def taxicab_def
        NewPointFromLatLng_def ValueCopy_def)
  moreover have "\<lparr>TriggerObject = object_c, Object = object_b, Distance = 1, TimestampUnix = 9\<rparr>
      \<in> set (events_published res)"
    unfolding evs
    by (simp add: object_a_def object_b_def object_c_def new_entry_def taxicab_def
        NewPointFromLatLng_def ValueCopy_def)
  ultimately show ?thesis
    using run keys by (simp add: object_a_def object_c_def)
qed

text \<open>
  C5 as stated fails: \<open>object_far\<close> is stored, \<open>object_wide\<close> is written at distance 2 of
  it, which is less than the sum of their radii, \<open>2 ^ 63\<close>, and no event is published:
  the 64-bit sum of the radii is negative.
\<close>

theorem Set_no_event_when_radii_overflow:
  "taxicab (NewPointFromLatLng 1 2) (NewPointFromLatLng 1 4) = 2 \<and>
   (2 :: real) \<le> real_of_int (sint (Radius object_wide) + sint (Radius object_far)) \<and>
   Set taxicab 100 (\<lambda>k. False) (\<lambda>k. []) [(''b'', new_entry object_far)] [(''a'', object_wide)] =
     Done \<lparr>response = SetResponse, failure = None,
           store = [(''a'', new_entry object_wide), (''b'', new_entry object_far)],
           goroutines =
             [\<lparr>gkey = ''a'', gval = object_wide,
               gtxn = staged [(''b'', new_entry object_far)] ''a'' (new_entry object_wide),
               gevents = []\<rparr>]\<rparr>"
  by (simp add: Set_single Set_scan_eq Set_commit_def Commit_def staged_def Iterate_def
      txn_view_def stamp_eq object_wide_def object_far_def new_entry_def expired_def
      taxicab_def NewPointFromLatLng_def ValueCopy_def)

text \<open>
  C6, as the code has it.  Take a request whose objects all have a point, under any
  schedule, and an entry of it with a key the store accepts and an object that has a
  coordinate, a radius that is not negative and below \<open>2 ^ 62\<close>, so that twice the radius
  is in the range of the 64-bit sum, and that is not already expired when it is written.
  Provided the distance from its point to itself is 0, the event that pairs the stamped
  object with itself at distance 0 is published.  The store is arbitrary, the empty one
  included.
\<close>

theorem Set_self_event:
  assumes points: "\<forall>(k, v) \<in> set r. Point v \<noteq> None"
    and entry: "(key, val) \<in> set r" "key \<noteq> []"
    and p: "Point val = Some p"
    and radius: "0 \<le> sint (Radius val)" "sint (Radius val) < 2 ^ 62"
    and fresh: "\<not> expired now (new_entry (stamp now key val))"
    and zero: "gd (NewPointFromLatLng (Lat p) (Lon p)) (NewPointFromLatLng (Lat p) (Lon p)) = 0"
  shows "\<exists>res. Set gd now conflict early db r = Done res \<and>
    \<lparr>TriggerObject = stamp now key val, Object = stamp now key val, Distance = 0,
      TimestampUnix = UpdatedUnix (stamp now key val)\<rparr> \<in> set (events_published res)"
proof -
  let ?A = "stamp now key val"
  let ?P = "NewPointFromLatLng (Lat p) (Lon p)"
  from points obtain res where run: "Set gd now conflict early db r = Done res"
    using Set_returns by blast
  from entry have "(key, val) \<in> set (filter (\<lambda>(k, v). k \<noteq> []) r)"
    by simp
  with Set_goroutines [OF run] obtain g snap
    where g: "g \<in> set (goroutines res)"
      and scan: "Set_scan gd now snap key val = Done (Some g)"
    by (blast dest: list_all2_left)
  let ?items = "Iterate now (staged snap key (new_entry ?A))"
  from scan p entry(2) have events: "gevents g = scan gd ?A ?P ?items"
    by (auto simp add: Set_scan_eq)
  from radius have "sint (Radius val + Radius val) = sint (Radius val) + sint (Radius val)"
    by (intro sint_add_in_range) simp_all
  with radius(1) have sum: "0 \<le> sint (Radius ?A + Radius ?A)"
    by simp
  have "(key, new_entry ?A) \<in> set ?items"
    using fresh by (simp add: Iterate_staged db_put_mem)
  then have "\<lparr>TriggerObject = ?A, Object = ?A, Distance = gd ?P ?P,
      TimestampUnix = UpdatedUnix ?A\<rparr> \<in> set (scan gd ?A ?P ?items)"
  proof (rule scan_event_mem)
    show "UserMeta (new_entry ?A) = ObjectMeta" by (simp add: new_entry_def)
    show "Unmarshal (Value (new_entry ?A)) = Some ?A" by (simp add: new_entry_def)
    show "Point ?A = Some p" using p by simp
    show "gd ?P ?P \<le> real_of_int (sint (Radius ?A + Radius ?A))"
      using sum zero by (simp del: of_int_sint)
  qed
  with events zero events_published_goroutine [OF g] run show ?thesis
    by auto
qed

theorem Set_self_event_witness:
  "\<exists>res. Set taxicab 100 (\<lambda>k. False) (\<lambda>k. []) [] [(''a'', object_a)] = Done res \<and>
     \<lparr>TriggerObject = object_a, Object = object_a, Distance = 0, TimestampUnix = 7\<rparr>
       \<in> set (events_published res)"
  using Set_self_event
     [where r = "[(''a'', object_a)]" and key = "''a''" and val = object_a
      and p = "\<lparr>Lat = 1, Lon = 2\<rparr>" and now = 100 and gd = taxicab
      and conflict = "\<lambda>k. False" and early = "\<lambda>k. []" and db = "[]"]
  by (simp add: stamp_eq object_a_def new_entry_def expired_def taxicab_def)

text \<open>
  C6 as stated fails: \<open>object_old\<close> has a coordinate and radius 5, its distance to itself
  is 0, and writing it into the empty store at time 1000 publishes no event, since the
  entry staged for it is expired and the iterator skips it.
\<close>

theorem Set_no_self_event_when_expired:
  "Point object_old \<noteq> None \<and> 0 \<le> sint (Radius object_old) \<and>
   taxicab (NewPointFromLatLng 1 2) (NewPointFromLatLng 1 2) = 0 \<and>
   Set taxicab 1000 (\<lambda>k. False) (\<lambda>k. []) [] [(''a'', object_old)] =
     Done \<lparr>response = SetResponse, failure = None, store = [(''a'', new_entry object_old)],
           goroutines =
             [\<lparr>gkey = ''a'', gval = object_old,
               gtxn = staged [] ''a'' (new_entry object_old), gevents = []\<rparr>]\<rparr>"
  by (simp add: Set_single Set_scan_eq Set_commit_def Commit_def staged_def Iterate_def
      txn_view_def stamp_eq object_old_def new_entry_def expired_def taxicab_def)

text \<open>
  C8 (the code departs from it).  A request with one object that has no point does not
  return the empty response: the goroutine dereferences the missing point and the process
  panics.
\<close>

theorem Set_panics_on_missing_point:
  "Set taxicab 1000 (\<lambda>k. False) (\<lambda>k. []) [] [(''a'', object_a\<lparr>Point := None\<rparr>)] = Panic"
  by (simp add: Set_single Set_scan_eq object_a_def)

text \<open>
  C9, as the code has it.  For a key the store accepts and an object with a point, when
  the commit succeeds and the entry is not expired at the time of the read, \<open>Set\<close> of the
  one entry followed by \<open>Get\<close> of the key returns the object with \<open>Key\<close> set to the key and
  \<open>UpdatedUnix\<close> set to the time of the write if it was 0.
\<close>

theorem Set_Get_roundtrip:
  assumes "k \<noteq> []" and "Point v \<noteq> None" and "\<not> conflict k"
    and "\<not> expired now' (new_entry (stamp now k v))"
  shows "\<exists>res. Set gd now conflict early db [(k, v)] = Done res \<and>
    Get now' (store res) [k] =
      Inr [k \<mapsto> v\<lparr>Key := k,
                   UpdatedUnix := (if UpdatedUnix v = 0 then now else UpdatedUnix v)\<rparr>]"
proof -
  from assms(2) obtain p where p: "Point v = Some p" by auto
  let ?A = "stamp now k v"
  have "Get now' (db_put k (new_entry ?A) db) [k] = Inr [k \<mapsto> ?A]"
    using assms(1,4)
    by (simp add: Get_def NewTransaction_def txn_Get_def txn_view_def map_of_db_put
        ValueCopy_def)
       (simp add: new_entry_def)
  then show ?thesis
    using assms(1,3) p
    by (simp add: Set_single Set_scan_eq Set_commit_staged [where snap = db] stamp_eq)
qed

theorem Set_Get_roundtrip_witness:
  "\<exists>res. Set taxicab 100 (\<lambda>k. False) (\<lambda>k. []) [] [(''k'', object_a\<lparr>UpdatedUnix := 0\<rparr>)] =
       Done res \<and>
     Get 200 (store res) [''k''] =
       Inr [''k'' \<mapsto> object_a\<lparr>Key := ''k'', UpdatedUnix := 100\<rparr>]"
  using Set_Get_roundtrip
     [where k = "''k''" and v = "object_a\<lparr>UpdatedUnix := 0\<rparr>" and conflict = "\<lambda>k. False"
      and early = "\<lambda>k. []" and now = 100 and now' = 200 and gd = taxicab and db = "[]"]
  by (simp add: stamp_eq object_a_def new_entry_def expired_def)

text \<open>
  C9 as stated fails: \<open>object_old\<close> is written under the key \<open>a\<close> at time 1000 and
  committed, and \<open>Get\<close> of \<open>a\<close> at that time fails with the not-found error.
\<close>

theorem Set_Get_expired_not_found:
  "Set taxicab 1000 (\<lambda>k. False) (\<lambda>k. []) [] [(''a'', object_old)] =
     Done \<lparr>response = SetResponse, failure = None, store = [(''a'', new_entry object_old)],
           goroutines =
             [\<lparr>gkey = ''a'', gval = object_old,
               gtxn = staged [] ''a'' (new_entry object_old), gevents = []\<rparr>]\<rparr> \<and>
   Get 1000 [(''a'', new_entry object_old)] [''a''] = Inl ErrKeyNotFound"
  by (simp add: Set_single Set_scan_eq Set_commit_def Commit_def staged_def Iterate_def
      txn_view_def stamp_eq object_old_def new_entry_def expired_def taxicab_def
      Get_def NewTransaction_def txn_Get_def)

text \<open>
  C10.  Whatever the schedule, \<open>Set\<close> panics exactly when the request holds, under a key
  the store accepts, an object without a point; when every object has a point it returns
  the empty response and no error.
\<close>

theorem Set_panics_iff_point_missing:
  "(Set gd now conflict early db r = Panic \<longleftrightarrow>
      (\<exists>(k, v) \<in> set r. k \<noteq> [] \<and> Point v = None)) \<and>
   ((\<forall>(k, v) \<in> set r. Point v \<noteq> None) \<longrightarrow>
      (\<exists>res. Set gd now conflict early db r = Done res \<and> response res = SetResponse \<and>
         failure res = None))"
proof (intro conjI impI)
  show "Set gd now conflict early db r = Panic \<longleftrightarrow>
      (\<exists>(k, v) \<in> set r. k \<noteq> [] \<and> Point v = None)"
    by (rule Set_Panic_iff)
next
  assume "\<forall>(k, v) \<in> set r. Point v \<noteq> None"
  then obtain res where run: "Set gd now conflict early db r = Done res"
    using Set_returns by blast
  from Set_Done_response [OF run] run
  show "\<exists>res. Set gd now conflict early db r = Done res \<and> response res = SetResponse \<and>
      failure res = None"
    by blast
qed

theorem Set_panics_iff_point_missing_witness:
  "Point object_a \<noteq> None \<and>
   (\<exists>res. Set taxicab 100 (\<lambda>k. False) (\<lambda>k. []) [] [(''a'', object_a)] = Done res \<and>
      response res = SetResponse \<and> failure res = None) \<and>
   Set taxicab 100 (\<lambda>k. False) (\<lambda>k. []) [] [(''b'', object_a\<lparr>Point := None\<rparr>)] = Panic"
  using Set_panics_iff_point_missing
      [of taxicab 100 "\<lambda>k. False" "\<lambda>k. []" "[]" "[(''a'', object_a)]"]
    Set_panics_iff_point_missing
      [of taxicab 100 "\<lambda>k. False" "\<lambda>k. []" "[]" "[(''b'', object_a\<lparr>Point := None\<rparr>)]"]
  by (simp add: object_a_def)

section \<open>Properties of the reading calls\<close>

lemma collected_stop:
  "\<forall>(k, e) \<in> set items. \<not> Q k \<Longrightarrow> collected Q items acc (Inr acc)"
  by (auto simp add: collected_def)

lemma collected_fail:
  "UserMeta e = ObjectMeta \<Longrightarrow> Q k \<Longrightarrow> Unmarshal (Value e) = None \<Longrightarrow>
   collected Q ((k, e) # items) acc (Inl ErrUnmarshal)"
  by (simp add: collected_def)

lemma collected_skip:
  "\<not> (UserMeta e = ObjectMeta \<and> Q k) \<Longrightarrow> collected Q items acc result \<Longrightarrow>
   collected Q ((k, e) # items) acc result"
  by (cases result) (auto simp add: collected_def)

lemma collected_take:
  assumes "UserMeta e = ObjectMeta" and "Q k" and "Unmarshal (Value e) = Some obj"
    and "collected Q items (acc(k \<mapsto> obj)) result"
  shows "collected Q ((k, e) # items) acc result"
proof (cases result)
  case (Inl err)
  with assms(4) show ?thesis by (auto simp add: collected_def)
next
  case (Inr res)
  from assms(4) Inr
  have dom: "dom res = insert k (dom acc) \<union>
      {k. \<exists>e. (k, e) \<in> set items \<and> UserMeta e = ObjectMeta \<and> Q k}"
    and val: "\<And>x y. res x = Some y \<Longrightarrow> (acc(k \<mapsto> obj)) x = Some y \<or>
      (\<exists>e. (x, e) \<in> set items \<and> UserMeta e = ObjectMeta \<and> Q x \<and> Unmarshal (Value e) = Some y)"
    by (simp_all add: collected_def)
  have "dom res = dom acc \<union>
      {k'. \<exists>e'. (k', e') \<in> set ((k, e) # items) \<and> UserMeta e' = ObjectMeta \<and> Q k'}"
    unfolding dom using assms(1,2) by auto
  moreover have "acc x = Some y \<or>
      (\<exists>e'. (x, e') \<in> set ((k, e) # items) \<and> UserMeta e' = ObjectMeta \<and> Q x \<and>
         Unmarshal (Value e') = Some y)" if "res x = Some y" for x y
  proof (cases "x = k \<and> y = obj")
    case True
    with assms(1-3) show ?thesis by auto
  next
    case False
    with val [OF that] show ?thesis by (auto split: if_splits)
  qed
  ultimately show ?thesis using Inr by (simp add: collected_def)
qed

lemma GetRegex_loop_valid:
  "rx regex = Some m \<Longrightarrow> collected m items acc (GetRegex_loop rx regex items acc)"
proof (induction items arbitrary: acc)
  case Nil
  show ?case by (simp add: collected_stop)
next
  case (Cons a items)
  obtain k e where a: "a = (k, e)" by (cases a)
  note IH = Cons.IH [OF Cons.prems]
  show ?case
  proof (cases "UserMeta e = ObjectMeta \<and> m k")
    case False
    then have eq: "GetRegex_loop rx regex ((k, e) # items) acc =
        GetRegex_loop rx regex items acc"
      using Cons.prems by (auto simp add: MatchString_def)
    from False IH [of acc] show ?thesis
      unfolding a eq by (rule collected_skip)
  next
    case True
    show ?thesis
    proof (cases "Unmarshal (Value e)")
      case None
      with True Cons.prems
      have eq: "GetRegex_loop rx regex ((k, e) # items) acc = Inl ErrUnmarshal"
        by (simp add: MatchString_def ValueCopy_def)
      from True None show ?thesis
        unfolding a eq by (blast intro: collected_fail)
    next
      case (Some obj)
      with True Cons.prems
      have eq: "GetRegex_loop rx regex ((k, e) # items) acc =
          GetRegex_loop rx regex items (acc(k \<mapsto> obj))"
        by (simp add: MatchString_def ValueCopy_def)
      from True Some IH [of "acc(k \<mapsto> obj)"] show ?thesis
        unfolding a eq by (blast intro: collected_take)
    qed
  qed
qed

lemma prefix_le: "prefix p (k::string) \<Longrightarrow> p \<le> k"
proof (induction p arbitrary: k)
  case Nil
  show ?case by simp
next
  case (Cons a p)
  then show ?case by (cases k) auto
qed

lemma not_prefix_mono:
  "p \<le> (k::string) \<Longrightarrow> \<not> prefix p k \<Longrightarrow> k \<le> k' \<Longrightarrow> \<not> prefix p k'"
proof (induction p arbitrary: k k')
  case Nil
  then show ?case by simp
next
  case (Cons a p)
  show ?case
  proof (cases k)
    case Nil
    with Cons.prems show ?thesis by simp
  next
    case k: (Cons b k1)
    show ?thesis
    proof (cases k')
      case Nil
      then show ?thesis by simp
    next
      case k': (Cons c k1')
      from Cons.prems(1) k have ab: "a < b \<or> a = b \<and> p \<le> k1" by auto
      from Cons.prems(3) k k' have bc: "b < c \<or> b = c \<and> k1 \<le> k1'" by auto
      show ?thesis
      proof (cases "a = c")
        case False
        then show ?thesis using k' by simp
      next
        case True
        with ab bc have "a = b" "b = c" "p \<le> k1" "k1 \<le> k1'" by auto
        moreover from Cons.prems(2) k \<open>a = b\<close> have "\<not> prefix p k1" by simp
        ultimately have "\<not> prefix p k1'" using Cons.IH by blast
        then show ?thesis using k' by simp
      qed
    qed
  qed
qed

lemma Seek_loop_spec:
  "sorted_wrt (<) (map fst items) \<Longrightarrow> \<forall>(k, e) \<in> set items. pre \<le> k \<Longrightarrow>
   collected (prefix pre) items acc (Seek_loop pre items acc)"
proof (induction items arbitrary: acc)
  case Nil
  show ?case by (simp add: collected_stop)
next
  case (Cons a items)
  obtain k e where a: "a = (k, e)" by (cases a)
  from Cons.prems have sorted: "sorted_wrt (<) (map fst items)"
    and ge: "\<forall>(k, e) \<in> set items. pre \<le> k"
    and later: "\<forall>(k', e') \<in> set items. k < k'" and k: "pre \<le> k"
    by (auto simp add: a)
  note IH = Cons.IH [OF sorted ge]
  show ?case
  proof (cases "prefix pre k")
    case False
    have "\<not> prefix pre k'" if "(k', e') \<in> set items" for k' e'
    proof -
      from that later have "k \<le> k'" by auto
      with k False show ?thesis by (rule not_prefix_mono)
    qed
    with False have "\<forall>(k', e') \<in> set ((k, e) # items). \<not> prefix pre k'"
      by auto
    then have "collected (prefix pre) ((k, e) # items) acc (Inr acc)"
      by (rule collected_stop)
    with False show ?thesis by (simp add: a)
  next
    case True
    show ?thesis
    proof (cases "UserMeta e = ObjectMeta")
      case False
      with True have eq: "Seek_loop pre ((k, e) # items) acc = Seek_loop pre items acc"
        by simp
      from False IH [of acc] show ?thesis
        unfolding a eq by (blast intro: collected_skip)
    next
      case meta: True
      show ?thesis
      proof (cases "Unmarshal (Value e)")
        case None
        with True meta have eq: "Seek_loop pre ((k, e) # items) acc = Inl ErrUnmarshal"
          by (simp add: ValueCopy_def)
        from True meta None show ?thesis
          unfolding a eq by (blast intro: collected_fail)
      next
        case (Some obj)
        with True meta
        have eq: "Seek_loop pre ((k, e) # items) acc = Seek_loop pre items (acc(k \<mapsto> obj))"
          by (simp add: ValueCopy_def)
        from True meta Some IH [of "acc(k \<mapsto> obj)"] show ?thesis
          unfolding a eq by (blast intro: collected_take)
      qed
    qed
  qed
qed

lemma Seek_loop_dropWhile:
  "sorted_wrt (<) (map fst items) \<Longrightarrow>
   collected (prefix pre) items acc
     (Seek_loop pre (dropWhile (\<lambda>(k, e). k < pre) items) acc)"
proof (induction items)
  case Nil
  show ?case by (simp add: collected_stop)
next
  case (Cons a items)
  obtain k e where a: "a = (k, e)" by (cases a)
  show ?case
  proof (cases "k < pre")
    case True
    then have "\<not> prefix pre k" using prefix_le [of pre k] by auto
    then have skip: "\<not> (UserMeta e = ObjectMeta \<and> prefix pre k)" by simp
    from True have eq: "dropWhile (\<lambda>(k, e). k < pre) ((k, e) # items) =
        dropWhile (\<lambda>(k, e). k < pre) items"
      by simp
    from Cons have "collected (prefix pre) items acc
        (Seek_loop pre (dropWhile (\<lambda>(k, e). k < pre) items) acc)"
      by simp
    with skip show ?thesis
      unfolding a eq by (rule collected_skip)
  next
    case False
    then have eq: "dropWhile (\<lambda>(k, e). k < pre) (a # items) = a # items"
      by (simp add: a)
    from Cons.prems False have "\<forall>(k', e') \<in> set (a # items). pre \<le> k'"
      by (auto simp add: a)
    with Cons.prems show ?thesis
      unfolding eq by (rule Seek_loop_spec)
  qed
qed


lemma Iterate_readonly:
  "Iterate now (NewTransaction False db) = filter (\<lambda>(k, e). \<not> expired now e) db"
  by (simp add: Iterate_def NewTransaction_def txn_view_def)

lemma Keys_loop_eq:
  "Keys_loop items acc = acc @ map fst (filter (\<lambda>(k, e). UserMeta e = ObjectMeta) items)"
  by (induction items arbitrary: acc) auto

lemma set_Keys:
  "set (Keys now db) =
     {k. \<exists>e. (k, e) \<in> set (Iterate now (NewTransaction False db)) \<and> UserMeta e = ObjectMeta}"
  by (auto simp add: Keys_def Keys_loop_eq image_iff)

lemma Keys_empty_iff:
  "Keys now db = [] \<longleftrightarrow>
     \<not> (\<exists>(k, e) \<in> set (Iterate now (NewTransaction False db)). UserMeta e = ObjectMeta)"
  by (auto simp add: Keys_def Keys_loop_eq filter_empty_conv)

lemma GetRegex_loop_invalid:
  "rx regex = None \<Longrightarrow>
   GetRegex_loop rx regex items acc =
     (if \<exists>(k, e) \<in> set items. UserMeta e = ObjectMeta then Inl ErrRegexp else Inr acc)"
  by (induction items arbitrary: acc) (auto simp add: MatchString_def)

lemma collected_result:
  assumes "collected Q (Iterate now (NewTransaction False db)) Map.empty result"
  shows "case result of
      Inr res \<Rightarrow>
        dom res = {k \<in> set (Keys now db). Q k} \<and>
        (\<forall>k obj. res k = Some obj \<longrightarrow>
           (\<exists>e. (k, e) \<in> set db \<and> Unmarshal (Value e) = Some obj))
    | Inl err \<Rightarrow>
        err = ErrUnmarshal \<and>
        (\<exists>(k, e) \<in> set db. UserMeta e = ObjectMeta \<and> Q k \<and> Unmarshal (Value e) = None)"
proof (cases result)
  case (Inl err)
  with assms show ?thesis
    by (auto simp add: collected_def Iterate_readonly)
next
  case (Inr res)
  with assms have "dom res = {k \<in> set (Keys now db). Q k}"
    by (auto simp add: collected_def set_Keys)
  moreover from assms Inr
  have "\<exists>e. (k, e) \<in> set db \<and> Unmarshal (Value e) = Some obj" if "res k = Some obj" for k obj
    using that by (fastforce simp add: collected_def Iterate_readonly)
  ultimately show ?thesis using Inr by simp
qed

subsection \<open>The store stays in key order\<close>

lemma db_put_mem_cases: "(x, y) \<in> set (db_put k e db) \<Longrightarrow> x = k \<or> (x, y) \<in> set db"
  by (induction db) (auto split: if_splits)

lemma db_del_subset: "(x, y) \<in> set (db_del k db) \<Longrightarrow> (x, y) \<in> set db"
  by (induction db) (auto split: if_splits)

lemma sorted_db_put:
  "sorted_wrt (<) (map fst db) \<Longrightarrow> sorted_wrt (<) (map fst (db_put k e db))"
proof (induction db)
  case Nil
  show ?case by simp
next
  case (Cons a db)
  obtain k' e' where a: "a = (k', e')" by (cases a)
  from Cons.prems have later: "\<forall>(x, y) \<in> set db. k' < x"
    and sorted: "sorted_wrt (<) (map fst db)"
    by (auto simp add: a)
  show ?case
  proof (cases "k = k' \<or> k < k'")
    case True
    with Cons.prems later show ?thesis by (auto simp add: a)
  next
    case False
    then have "k' < k" by auto
    with later have "\<forall>(x, y) \<in> set (db_put k e db). k' < x"
      by (auto dest: db_put_mem_cases)
    with False Cons.IH [OF sorted] show ?thesis
      by (auto simp add: a)
  qed
qed

lemma sorted_db_del:
  "sorted_wrt (<) (map fst db) \<Longrightarrow> sorted_wrt (<) (map fst (db_del k db))"
proof (induction db)
  case Nil
  show ?case by simp
next
  case (Cons a db)
  obtain k' e' where a: "a = (k', e')" by (cases a)
  from Cons.prems have later: "\<forall>(x, y) \<in> set db. k' < x"
    and sorted: "sorted_wrt (<) (map fst db)"
    by (auto simp add: a)
  from later have "\<forall>(x, y) \<in> set (db_del k db). k' < x"
    by (auto dest: db_del_subset)
  with Cons.IH [OF sorted] show ?case
    by (auto simp add: a)
qed

lemma sorted_filter_fst:
  "sorted_wrt (<) (map fst db) \<Longrightarrow> sorted_wrt (<) (map fst (filter P db))"
  by (induction db) auto


subsection \<open>The calls on a store of two objects\<close>

lemma Keys_store_ab: "Keys 0 store_ab = [''a'', ''b'']"
  by (simp add: Keys_def store_ab_def Iterate_readonly new_entry_def expired_def)

lemma Seek_b: "Seek 0 store_ab ''b'' = Inr [''b'' \<mapsto> object_b]"
  by (simp add: Seek_def Iterate_from_def store_ab_def Iterate_readonly new_entry_def expired_def ValueCopy_def)

lemma GetRegex_b: "GetRegex literal_regexp 0 store_ab ''b'' = Inr [''b'' \<mapsto> object_b]"
  by (simp add: GetRegex_def store_ab_def Iterate_readonly new_entry_def expired_def ValueCopy_def
     MatchString_def literal_regexp_def sublist_code)

lemma GetRegex_paren: "GetRegex literal_regexp 0 store_ab ''('' = Inl ErrRegexp"
  by (simp add: GetRegex_def store_ab_def Iterate_readonly new_entry_def expired_def ValueCopy_def
     MatchString_def literal_regexp_def sublist_code)


subsection \<open>\<open>GetRegex\<close> and \<open>Seek\<close>\<close>

text \<open>
  C7, as the code has it.  With a pattern that does not compile \<open>GetRegex\<close> fails with
  the pattern error when the scan meets an object-tagged entry, and returns the empty map
  when there is none.  With a pattern that compiles it returns a map whose keys are
  exactly the keys of \<open>Keys\<close> that match, each value decoded from an entry of the store,
  unless a matching entry does not decode, which fails the call.
\<close>

theorem GetRegex_invalid_or_exact:
  "(rx regex = None \<longrightarrow>
      GetRegex rx now db regex = (if Keys now db = [] then Inr Map.empty else Inl ErrRegexp)) \<and>
   (\<forall>m. rx regex = Some m \<longrightarrow>
      (case GetRegex rx now db regex of
         Inr res \<Rightarrow>
           dom res = {k \<in> set (Keys now db). m k} \<and>
           (\<forall>k obj. res k = Some obj \<longrightarrow>
              (\<exists>e. (k, e) \<in> set db \<and> Unmarshal (Value e) = Some obj))
       | Inl err \<Rightarrow>
           err = ErrUnmarshal \<and>
           (\<exists>(k, e) \<in> set db. UserMeta e = ObjectMeta \<and> m k \<and> Unmarshal (Value e) = None)))"
proof (intro conjI impI allI)
  assume "rx regex = None"
  then show "GetRegex rx now db regex =
      (if Keys now db = [] then Inr Map.empty else Inl ErrRegexp)"
    by (simp add: GetRegex_def GetRegex_loop_invalid Keys_empty_iff)
next
  fix m
  assume "rx regex = Some m"
  then have "collected m (Iterate now (NewTransaction False db)) Map.empty
      (GetRegex rx now db regex)"
    unfolding GetRegex_def by (rule GetRegex_loop_valid)
  then show "case GetRegex rx now db regex of
      Inr res \<Rightarrow>
        dom res = {k \<in> set (Keys now db). m k} \<and>
        (\<forall>k obj. res k = Some obj \<longrightarrow>
           (\<exists>e. (k, e) \<in> set db \<and> Unmarshal (Value e) = Some obj))
    | Inl err \<Rightarrow>
        err = ErrUnmarshal \<and>
        (\<exists>(k, e) \<in> set db. UserMeta e = ObjectMeta \<and> m k \<and> Unmarshal (Value e) = None)"
    by (rule collected_result)
qed

theorem GetRegex_invalid_or_exact_witness:
  "literal_regexp ''('' = None \<and> GetRegex literal_regexp 0 store_ab ''('' = Inl ErrRegexp \<and>
   literal_regexp ''b'' = Some (sublist ''b'') \<and>
   (case GetRegex literal_regexp 0 store_ab ''b'' of
      Inr res \<Rightarrow> dom res = {''b''} | Inl err \<Rightarrow> False)"
proof -
  have invalid: "literal_regexp ''('' = None" and valid: "literal_regexp ''b'' = Some (sublist ''b'')"
    by (simp_all add: literal_regexp_def)
  from GetRegex_invalid_or_exact [of literal_regexp "''(''" 0 store_ab]
    GetRegex_invalid_or_exact [of literal_regexp "''b''" 0 store_ab] invalid valid
  show ?thesis
    by (simp add: GetRegex_b GetRegex_paren)
qed

text \<open>
  C7 as stated fails: on the empty store the pattern that does not compile gives the
  empty result and no error.
\<close>

theorem GetRegex_invalid_pattern_empty_store:
  "literal_regexp ''('' = None \<and> GetRegex literal_regexp 0 [] ''('' = Inr Map.empty"
  by (simp add: literal_regexp_def GetRegex_def Iterate_def NewTransaction_def txn_view_def)

text \<open>
  C4, as the code has it.  On a store in key order \<open>Seek\<close> returns a map whose keys are
  exactly the keys of \<open>Keys\<close> that start with the prefix, each value decoded from an entry
  of the store, unless such an entry does not decode, which fails the call.  Every key
  starts with the empty prefix: \<open>Seek\<close> of the empty prefix returns all objects.
\<close>

theorem Seek_exact_prefix:
  assumes "sorted_wrt (<) (map fst db)"
  shows "case Seek now db pre of
      Inr res \<Rightarrow>
        dom res = {k \<in> set (Keys now db). prefix pre k} \<and>
        (pre = [] \<longrightarrow> dom res = set (Keys now db)) \<and>
        (\<forall>k obj. res k = Some obj \<longrightarrow>
           (\<exists>e. (k, e) \<in> set db \<and> Unmarshal (Value e) = Some obj))
    | Inl err \<Rightarrow>
        err = ErrUnmarshal \<and>
        (\<exists>(k, e) \<in> set db. UserMeta e = ObjectMeta \<and> prefix pre k \<and>
           Unmarshal (Value e) = None)"
proof -
  from assms have "sorted_wrt (<) (map fst (Iterate now (NewTransaction False db)))"
    unfolding Iterate_readonly by (rule sorted_filter_fst)
  then have "collected (prefix pre) (Iterate now (NewTransaction False db)) Map.empty
      (Seek now db pre)"
    unfolding Seek_def Iterate_from_def by (rule Seek_loop_dropWhile)
  then have "case Seek now db pre of
      Inr res \<Rightarrow>
        dom res = {k \<in> set (Keys now db). prefix pre k} \<and>
        (\<forall>k obj. res k = Some obj \<longrightarrow>
           (\<exists>e. (k, e) \<in> set db \<and> Unmarshal (Value e) = Some obj))
    | Inl err \<Rightarrow>
        err = ErrUnmarshal \<and>
        (\<exists>(k, e) \<in> set db. UserMeta e = ObjectMeta \<and> prefix pre k \<and>
           Unmarshal (Value e) = None)"
    by (rule collected_result)
  then show ?thesis
    by (cases "Seek now db pre") simp_all
qed

theorem Seek_exact_prefix_witness:
  "sorted_wrt (<) (map fst store_ab) \<and>
   (case Seek 0 store_ab ''b'' of Inr res \<Rightarrow> dom res = {''b''} | Inl err \<Rightarrow> False)"
proof -
  have sorted: "sorted_wrt (<) (map fst store_ab)"
    by (simp add: store_ab_def)
  from Seek_exact_prefix [where db = store_ab and now = 0 and pre = "''b''", OF sorted] sorted
  show ?thesis
    by (simp add: Seek_b)
qed

text \<open>
  C4 as stated fails: \<open>Seek\<close> of the empty prefix returns the object of the store.
\<close>

theorem Seek_empty_prefix_returns_object:
  "Seek 0 [(''a'', new_entry object_a)] [] = Inr [''a'' \<mapsto> object_a]"
  by (simp add: Seek_def Iterate_from_def Iterate_def NewTransaction_def txn_view_def
      new_entry_def expired_def ValueCopy_def ObjectMeta_def)

end
